theory Spec2Isabelle
  imports Main "HOL-Library.Word" "HOL-Library.Sublist"
begin

section \<open>Data model\<close>

text \<open>
  The runtime header declares the per-thread \<open>StagingBuffer\<close>. Its \<open>uint64_t\<close> and
  \<open>size_t\<close> values are 64-bit words and its \<open>uint32_t\<close> id is a 32-bit word, so that
  \<open>-=\<close> and \<open>++\<close> wrap as they do in C++. A \<open>char *\<close> is the address it holds, a
  natural number: C++ gives pointer arithmetic that leaves the object no meaning, so no
  wrap-around is attached to it. The array \<open>storage[]\<close> is represented by the address
  of its first byte; none of the member functions below reads or writes the payload.
\<close>

type_synonym u64 = "64 word"
type_synonym u32 = "32 word"
type_synonym ptr = nat

record StagingBuffer =
  producerPos :: ptr
  endOfRecordedSpace :: ptr
  minFreeSpace :: u64
  cyclesProducerBlocked :: u64
  consumerPos :: ptr
  shouldDeallocate :: bool
  id' :: u32
  storage :: ptr

text \<open>
  What a member function does besides updating the fields, in program order: the
  fences of \<open>Fence.h\<close> and the stores to the position fields.
\<close>

datatype event =
    Sfence
  | Lfence
  | Store_minFreeSpace u64
  | Store_producerPos ptr
  | Store_consumerPos ptr

text \<open>The two \<open>assert\<close>s of \<open>finishReservation\<close>, in the order the source has them.\<close>

datatype assertion_failure =
    Assert_nbytes_lt_minFreeSpace
  | Assert_producerPos_in_storage

text \<open>
  \<open>reserveProducerSpace\<close> either returns \<open>producerPos\<close> on the in-line path or
  returns whatever \<open>reserveSpaceInternal\<close> returns.
\<close>

datatype 'r reservation = FastPath ptr | SlowPath 'r

section \<open>StagingBuffer member functions\<close>

text \<open>
  The constructor. \<open>NanoLogConfig::STAGING_BUFFER_SIZE\<close> comes from \<open>Config.h\<close>,
  which is not part of the sources at hand: it is the parameter \<open>C\<close> of every function
  that uses it. \<open>base\<close> is the address at which the new object's \<open>storage\<close> array lies.
\<close>

definition StagingBuffer_ctor :: "u64 \<Rightarrow> ptr \<Rightarrow> u32 \<Rightarrow> StagingBuffer" where
  "StagingBuffer_ctor C base bufferId =
     \<lparr> producerPos = base,
       endOfRecordedSpace = base + unat C,
       minFreeSpace = C,
       cyclesProducerBlocked = 0,
       consumerPos = base,
       shouldDeallocate = False,
       id' = bufferId,
       storage = base \<rparr>"

text \<open>
  \<open>reserveSpaceInternal\<close> is only declared in the header; it is the parameter
  \<open>reserveSpaceInternal\<close>, called with the default \<open>blocking = true\<close>.
\<close>

definition reserveProducerSpace ::
  "(StagingBuffer \<Rightarrow> u64 \<Rightarrow> bool \<Rightarrow> 'r) \<Rightarrow> StagingBuffer \<Rightarrow> u64 \<Rightarrow> 'r reservation" where
  "reserveProducerSpace reserveSpaceInternal sb nbytes =
     (if nbytes < minFreeSpace sb then FastPath (producerPos sb)
      else SlowPath (reserveSpaceInternal sb nbytes True))"

definition finishReservation ::
  "u64 \<Rightarrow> u64 \<Rightarrow> StagingBuffer \<Rightarrow> assertion_failure + (event list \<times> StagingBuffer)" where
  "finishReservation C nbytes sb =
     (if \<not> nbytes < minFreeSpace sb then Inl Assert_nbytes_lt_minFreeSpace
      else if \<not> producerPos sb + unat nbytes < storage sb + unat C
        then Inl Assert_producerPos_in_storage
      else Inr ([Sfence,
                 Store_minFreeSpace (minFreeSpace sb - nbytes),
                 Store_producerPos (producerPos sb + unat nbytes)],
                sb\<lparr> minFreeSpace := minFreeSpace sb - nbytes,
                    producerPos := producerPos sb + unat nbytes \<rparr>))"

definition consume :: "u64 \<Rightarrow> StagingBuffer \<Rightarrow> event list \<times> StagingBuffer" where
  "consume nbytes sb =
     ([Lfence, Store_consumerPos (consumerPos sb + unat nbytes)],
      sb\<lparr> consumerPos := consumerPos sb + unat nbytes \<rparr>)"

definition checkCanDelete :: "StagingBuffer \<Rightarrow> bool" where
  "checkCanDelete sb = (shouldDeallocate sb \<and> consumerPos sb = producerPos sb)"

definition getId :: "StagingBuffer \<Rightarrow> u32" where
  "getId sb = id' sb"

section \<open>The decoder's command line\<close>

text \<open>
  C strings. A \<open>const char *\<close> read as a string, and \<open>std::string::c_str()\<close> read by a
  C function, end at the first NUL character.
\<close>

definition c_str :: "string \<Rightarrow> string" where
  "c_str s = takeWhile (\<lambda>c. c \<noteq> CHR 0x00) s"

definition crlf :: string where
  "crlf = [CHR 0x0D, CHR 0x0A]"

text \<open>
  \<open>std::stoi\<close> with base 10, as the C++ library defines it through \<open>strtol\<close>: leading
  white space is skipped, one sign is accepted, the longest run of decimal digits is
  converted and what follows it is ignored. No digit at all is \<open>std::invalid_argument\<close>; a
  value that does not fit an \<open>int\<close> (32 bits) is \<open>std::out_of_range\<close>.
\<close>

datatype stoi_error = invalid_argument | out_of_range

definition isspace :: "char \<Rightarrow> bool" where
  "isspace c = (c = CHR 0x20 \<or> c = CHR 0x09 \<or> c = CHR 0x0A \<or> c = CHR 0x0B
                \<or> c = CHR 0x0C \<or> c = CHR 0x0D)"

definition isdigit :: "char \<Rightarrow> bool" where
  "isdigit c = (48 \<le> (of_char c :: nat) \<and> (of_char c :: nat) \<le> 57)"

fun digits_value :: "int \<Rightarrow> string \<Rightarrow> int" where
  "digits_value acc [] = acc"
| "digits_value acc (c # cs) = digits_value (10 * acc + (of_char c - 48)) cs"

definition strip_sign :: "string \<Rightarrow> bool \<times> string" where
  "strip_sign s =
     (case s of
        [] \<Rightarrow> (False, s)
      | c # r \<Rightarrow> if c = CHR ''-'' then (True, r)
                 else if c = CHR ''+'' then (False, r)
                 else (False, s))"

definition stoi :: "string \<Rightarrow> stoi_error + int" where
  "stoi str =
     (let (negative, s) = strip_sign (dropWhile isspace (c_str str));
          ds = takeWhile isdigit s;
          v = (if negative then - digits_value 0 ds else digits_value 0 ds)
      in if ds = [] then Inl invalid_argument
         else if v < - (2 ^ 31) \<or> 2 ^ 31 - 1 < v then Inl out_of_range
         else Inr v)"

text \<open>
  \<open>main\<close>. The result is the status the program ends with (the argument of \<open>exit\<close>
  or the value returned) and what was written to standard output, one entry per
  \<open>printf\<close>. \<open>argc\<close> is the length of \<open>argv\<close>. \<open>Log::Decoder\<close> is declared in
  \<open>Log.h\<close>, which is not part of the sources at hand; its two member functions are
  parameters: \<open>decoder_open\<close> yields the opened decoder, or \<open>None\<close> where \<open>open\<close>
  returns false, and \<open>decoder_decompressUnordered d n\<close> is what
  \<open>decompressUnordered(stdout, n)\<close> writes.
\<close>

definition usage :: "string list \<Rightarrow> string list" where
  "usage argv =
     [''Decompresses log files produced by the NanoLog System'' @ crlf
        @ ''into a human readable format.'' @ crlf @ crlf,
      [CHR 0x09] @ ''Usage: '' @ (case argv of [] \<Rightarrow> ''(null)'' | a # _ \<Rightarrow> a)
        @ '' <logFile> [# messages to print]'' @ crlf]"

definition main ::
  "(string \<Rightarrow> 'd option) \<Rightarrow> ('d \<Rightarrow> int \<Rightarrow> string list) \<Rightarrow> string list
     \<Rightarrow> int \<times> string list" where
  "main decoder_open decoder_decompressUnordered argv =
     (if length argv < 2 then (1, usage argv)
      else
        case (if length argv > 2 then stoi (argv ! 2) else Inr 0) of
          Inl invalid_argument \<Rightarrow>
            (- 1, [''Invalid # of message to print, please enter a number: ''
                     @ argv ! 2 @ crlf])
        | Inl out_of_range \<Rightarrow>
            (- 1, [''# of messages to print is too large: '' @ argv ! 2 @ crlf,
                   ''If you intend to print all message, ''
                     @ ''exclude the # messages to print parameter.'' @ crlf])
        | Inr parsed \<Rightarrow>
            if length argv > 2 \<and> parsed < 0
            then (- 1, [''# of messages to print must be positive: '' @ argv ! 2 @ crlf])
            else
              let msgsToPrint = (if parsed = 0 then - 1 else parsed)
              in case decoder_open (argv ! 1) of
                   None \<Rightarrow> (0, [''Unable to open file '' @ argv ! 1 @ crlf])
                 | Some d \<Rightarrow> (0, decoder_decompressUnordered d msgsToPrint))"

text \<open>
  Modelled from the spec: \<open>Log::Decoder::decompressUnordered\<close> is defined outside the
  sources at hand. The spec says that it reads the records in file order, renders each
  into the sink, and stops after \<open>maxMessages\<close> records or, when \<open>maxMessages < 0\<close>,
  runs to end-of-file. \<open>render\<close> is the per-record decompressor.
\<close>

definition decompressUnordered :: "('r \<Rightarrow> string) \<Rightarrow> 'r list \<Rightarrow> int \<Rightarrow> string list" where
  "decompressUnordered render records maxMessages =
     map render (if maxMessages < 0 then records else take (nat maxMessages) records)"

section \<open>Printing the metadata table\<close>

text \<open>
  \<open>GeneratedCode.h\<close> is written by the preprocessor and is not part of the sources at
  hand: the table \<open>logId2Metadata\<close> and its size \<open>numLogIds\<close> are parameters. Of a
  table entry, the function reads the three fields below.
\<close>

record LogMetadata =
  fileName :: string
  lineNumber :: u32
  fmtString :: string

text \<open>
  \<open>strstr\<close> from the C library: the position of the first occurrence of \<open>needle\<close> in
  \<open>haystack\<close>, or \<open>None\<close> for the null pointer.
\<close>

fun strstr :: "string \<Rightarrow> string \<Rightarrow> nat option" where
  "strstr [] needle = (if needle = [] then Some 0 else None)"
| "strstr (h # hs) needle =
     (if prefix needle (h # hs) then Some 0 else map_option Suc (strstr hs needle))"

text \<open>The conversions of \<open>printf\<close> the function uses: \<open>%4s\<close>, \<open>%-20s\<close>, \<open>%lu\<close>, \<open>%u\<close>.\<close>

definition pad_left :: "nat \<Rightarrow> string \<Rightarrow> string" where
  "pad_left w s = replicate (w - length s) CHR 0x20 @ s"

definition pad_right :: "nat \<Rightarrow> string \<Rightarrow> string" where
  "pad_right w s = s @ replicate (w - length s) CHR 0x20"

fun decimal :: "nat \<Rightarrow> string" where
  "decimal n =
     (if n < 10 then [char_of (48 + n)]
      else decimal (n div 10) @ [char_of (48 + n mod 10)])"

declare decimal.simps [simp del]

definition header_row :: string where
  "header_row =
     pad_left 4 ''id'' @ '' | '' @ pad_right 20 ''filename'' @ '' | ''
       @ pad_right 4 ''line'' @ '' | '' @ ''format string'' @ crlf"

definition metadata_row :: "nat \<Rightarrow> LogMetadata \<Rightarrow> string" where
  "metadata_row i lm =
     pad_left 4 (decimal i) @ '' | '' @ pad_right 20 (c_str (fileName lm)) @ '' | ''
       @ pad_right 4 (decimal (unat (lineNumber lm))) @ '' | ''
       @ c_str (fmtString lm) @ crlf"

text \<open>The first loop, from \<open>i\<close> on, with \<open>matchingLogIds\<close> as built so far.\<close>

function collect_matching ::
  "nat \<Rightarrow> (nat \<Rightarrow> LogMetadata) \<Rightarrow> string \<Rightarrow> nat \<Rightarrow> nat list \<Rightarrow> nat list" where
  "collect_matching numLogIds logId2Metadata searchString i matchingLogIds =
     (if i < numLogIds
      then collect_matching numLogIds logId2Metadata searchString (Suc i)
             (if strstr (c_str (fmtString (logId2Metadata i))) (c_str searchString) \<noteq> None
              then matchingLogIds @ [i] else matchingLogIds)
      else matchingLogIds)"
  by pat_completeness auto
termination
  by (relation "measure (\<lambda>(n, t, s, i, acc). n - i)") auto

declare collect_matching.simps [simp del]

text \<open>The second loop.\<close>

fun print_rows :: "(nat \<Rightarrow> LogMetadata) \<Rightarrow> nat list \<Rightarrow> string list" where
  "print_rows logId2Metadata [] = []"
| "print_rows logId2Metadata (i # ids) =
     metadata_row i (logId2Metadata i) # print_rows logId2Metadata ids"

definition printLogMetadataContainingSubstring ::
  "nat \<Rightarrow> (nat \<Rightarrow> LogMetadata) \<Rightarrow> string \<Rightarrow> string list" where
  "printLogMetadataContainingSubstring numLogIds logId2Metadata searchString =
     header_row
       # print_rows logId2Metadata
           (collect_matching numLogIds logId2Metadata searchString 0 [])"

section \<open>Threads, the registry and the thread-local sentinel\<close>

text \<open>
  The process as far as the header describes it: the singleton's \<open>nextBufferId\<close>,
  \<open>bufferMutex\<close> and \<open>threadBuffers\<close>, each thread's \<open>__thread\<close> pointer
  \<open>stagingBuffer\<close>, and the buffers that \<open>new\<close> has created. A \<open>StagingBuffer *\<close> is
  \<open>None\<close> for the null pointer or the position of the object in \<open>heap\<close>, which lists
  the buffers in the order of their creation. Threads run interleaved; each step below
  is one statement of one thread, and a thread that would block on the mutex has no
  step.
\<close>

type_synonym tid = nat
type_synonym bufref = nat

text \<open>
  Where a thread stands in \<open>ensureStagingBufferAllocated\<close>. The post-increment
  \<open>nextBufferId++\<close> is a load followed by a store.
\<close>

datatype point =
    Idle
  | HoldsGuard
  | Loaded u32
  | Incremented u32
  | Unlocked u32
  | Allocated
  | Relocked
  | Pushed
  | Exited

record process =
  nextBufferId :: u32
  bufferMutex :: "tid option"
  threadBuffers :: "bufref option list"
  stagingBuffer :: "tid \<Rightarrow> bufref option"
  pc :: "tid \<Rightarrow> point"
  heap :: "StagingBuffer list"

definition init :: process where
  "init = \<lparr> nextBufferId = 1, bufferMutex = None, threadBuffers = [],
            stagingBuffer = (\<lambda>_. None), pc = (\<lambda>_. Idle), heap = [] \<rparr>"

text \<open>
  The destructor of the sentinel, on the dying thread's pointer and the heap; it
  returns the pointer and the heap as it leaves them.
\<close>

definition StagingBufferDestroyer_dtor ::
  "bufref option \<Rightarrow> StagingBuffer list \<Rightarrow> bufref option \<times> StagingBuffer list" where
  "StagingBufferDestroyer_dtor p h =
     (case p of
        None \<Rightarrow> (None, h)
      | Some b \<Rightarrow> (None, h[b := (h ! b)\<lparr> shouldDeallocate := True \<rparr>]))"

text \<open>
  The steps. \<open>Lock\<close> to \<open>Release\<close> are the statements of
  \<open>ensureStagingBufferAllocated\<close>, entered when the thread's pointer is null:
  the guard's constructor, the load and the store of \<open>nextBufferId++\<close>,
  \<open>guard.unlock()\<close>, \<open>new StagingBuffer(bufferId)\<close> (at the address \<open>base\<close>),
  \<open>guard.lock()\<close>, \<open>push_back\<close> and the guard's destructor. \<open>Finish\<close> is
  \<open>__internal_finishAlloc\<close> on the thread's own buffer, \<open>Consume\<close> is the
  background thread's \<open>consume\<close> on a registered buffer, and \<open>Exit\<close> is the end of a
  thread, which runs the sentinel's destructor.
\<close>

datatype action =
    Lock tid
  | Load tid
  | Store tid
  | Unlock tid
  | New tid ptr
  | Relock tid
  | Push tid
  | Release tid
  | Finish tid u64
  | Consume bufref u64
  | Exit tid

fun step :: "u64 \<Rightarrow> action \<Rightarrow> process \<Rightarrow> process option" where
  "step C (Lock t) s =
     (if pc s t = Idle \<and> stagingBuffer s t = None \<and> bufferMutex s = None
      then Some (s\<lparr> bufferMutex := Some t, pc := (pc s)(t := HoldsGuard) \<rparr>)
      else None)"
| "step C (Load t) s =
     (if pc s t = HoldsGuard
      then Some (s\<lparr> pc := (pc s)(t := Loaded (nextBufferId s)) \<rparr>)
      else None)"
| "step C (Store t) s =
     (case pc s t of
        Loaded v \<Rightarrow> Some (s\<lparr> nextBufferId := v + 1, pc := (pc s)(t := Incremented v) \<rparr>)
      | _ \<Rightarrow> None)"
| "step C (Unlock t) s =
     (case pc s t of
        Incremented v \<Rightarrow> Some (s\<lparr> bufferMutex := None, pc := (pc s)(t := Unlocked v) \<rparr>)
      | _ \<Rightarrow> None)"
| "step C (New t base) s =
     (case pc s t of
        Unlocked v \<Rightarrow>
          Some (s\<lparr> heap := heap s @ [StagingBuffer_ctor C base v],
                   stagingBuffer := (stagingBuffer s)(t := Some (length (heap s))),
                   pc := (pc s)(t := Allocated) \<rparr>)
      | _ \<Rightarrow> None)"
| "step C (Relock t) s =
     (if pc s t = Allocated \<and> bufferMutex s = None
      then Some (s\<lparr> bufferMutex := Some t, pc := (pc s)(t := Relocked) \<rparr>)
      else None)"
| "step C (Push t) s =
     (if pc s t = Relocked
      then Some (s\<lparr> threadBuffers := threadBuffers s @ [stagingBuffer s t],
                     pc := (pc s)(t := Pushed) \<rparr>)
      else None)"
| "step C (Release t) s =
     (if pc s t = Pushed
      then Some (s\<lparr> bufferMutex := None, pc := (pc s)(t := Idle) \<rparr>)
      else None)"
| "step C (Finish t nbytes) s =
     (if pc s t = Idle
      then case stagingBuffer s t of
             None \<Rightarrow> None
           | Some b \<Rightarrow>
               if b < length (heap s)
               then case finishReservation C nbytes (heap s ! b) of
                      Inl failure \<Rightarrow> None
                    | Inr (events, sb) \<Rightarrow> Some (s\<lparr> heap := (heap s)[b := sb] \<rparr>)
               else None
      else None)"
| "step C (Consume b nbytes) s =
     (if b < length (heap s) \<and> Some b \<in> set (threadBuffers s)
      then Some (s\<lparr> heap := (heap s)[b := snd (consume nbytes (heap s ! b))] \<rparr>)
      else None)"
| "step C (Exit t) s =
     (if pc s t = Idle
      then Some (s\<lparr> heap := snd (StagingBufferDestroyer_dtor (stagingBuffer s t) (heap s)),
                     stagingBuffer :=
                       (stagingBuffer s)
                         (t := fst (StagingBufferDestroyer_dtor (stagingBuffer s t) (heap s))),
                     pc := (pc s)(t := Exited) \<rparr>)
      else None)"

fun run :: "u64 \<Rightarrow> action list \<Rightarrow> process \<Rightarrow> process option" where
  "run C [] s = Some s"
| "run C (a # as) s = (case step C a s of None \<Rightarrow> None | Some s' \<Rightarrow> run C as s')"

text \<open>The points at which a thread owns \<open>bufferMutex\<close>.\<close>

fun holds_bufferMutex :: "point \<Rightarrow> bool" where
  "holds_bufferMutex HoldsGuard = True"
| "holds_bufferMutex (Loaded v) = True"
| "holds_bufferMutex (Incremented v) = True"
| "holds_bufferMutex Relocked = True"
| "holds_bufferMutex Pushed = True"
| "holds_bufferMutex p = False"

text \<open>
  The id a thread has taken from \<open>nextBufferId\<close> and not yet given to a constructor,
  and the number of ids taken in a run.
\<close>

fun bufferId_of :: "point \<Rightarrow> u32 option" where
  "bufferId_of (Incremented v) = Some v"
| "bufferId_of (Unlocked v) = Some v"
| "bufferId_of p = None"

fun is_Store :: "action \<Rightarrow> bool" where
  "is_Store (Store t) = True"
| "is_Store a = False"

definition ids_assigned :: "action list \<Rightarrow> nat" where
  "ids_assigned acts = length (filter is_Store acts)"

text \<open>
  Whether a step writes \<open>shouldDeallocate\<close> of the buffer \<open>b\<close>, and the number of such
  writes in a run that starts in \<open>s\<close>.
\<close>

fun writes_shouldDeallocate :: "bufref \<Rightarrow> action \<Rightarrow> process \<Rightarrow> bool" where
  "writes_shouldDeallocate b (Exit t) s = (stagingBuffer s t = Some b)"
| "writes_shouldDeallocate b a s = False"

fun count_writes :: "u64 \<Rightarrow> bufref \<Rightarrow> action list \<Rightarrow> process \<Rightarrow> nat" where
  "count_writes C b [] s = 0"
| "count_writes C b (a # as) s =
     (case step C a s of
        None \<Rightarrow> 0
      | Some s' \<Rightarrow> (if writes_shouldDeallocate b a s then 1 else 0) + count_writes C b as s')"

text \<open>
  The ids that threads have taken from \<open>nextBufferId\<close> and not yet given to a
  constructor, and that no two threads hold the same one.
\<close>

definition ids_in_flight :: "(tid \<Rightarrow> point) \<Rightarrow> u32 set" where
  "ids_in_flight f = {v. \<exists>t. bufferId_of (f t) = Some v}"

definition unique_in_flight :: "(tid \<Rightarrow> point) \<Rightarrow> bool" where
  "unique_in_flight f =
     (\<forall>t t' v. bufferId_of (f t) = Some v \<and> bufferId_of (f t') = Some v \<longrightarrow> t = t')"

text \<open>
  The mutex discipline: a thread is at a point between a lock and the next unlock
  exactly when it is the owner of \<open>bufferMutex\<close>, and a value loaded from
  \<open>nextBufferId\<close> is still the current one when it is stored back.
\<close>

definition mutex_ok :: "process \<Rightarrow> bool" where
  "mutex_ok s =
     ((\<forall>t. holds_bufferMutex (pc s t) = (bufferMutex s = Some t))
      \<and> (\<forall>t v. pc s t = Loaded v \<longrightarrow> v = nextBufferId s))"

text \<open>
  The state of the ids after \<open>k\<close> of them have been taken: the counter stands at
  \<open>k + 1\<close>, and the ids of the buffers created and those in flight are, without
  repetition, the words \<open>1, \<dots>, k\<close>.
\<close>

definition ids_ok :: "nat \<Rightarrow> process \<Rightarrow> bool" where
  "ids_ok k s =
     (nextBufferId s = of_nat (Suc k)
      \<and> distinct (map id' (heap s))
      \<and> id' ` set (heap s) \<union> ids_in_flight (pc s) = of_nat ` {1..k}
      \<and> id' ` set (heap s) \<inter> ids_in_flight (pc s) = {}
      \<and> unique_in_flight (pc s))"

text \<open>
  Ownership: a thread's pointer refers to a buffer that exists and is not yet marked,
  and no two threads point to the same buffer. A buffer is unowned when it exists and
  no thread points to it.
\<close>

definition owners_ok :: "process \<Rightarrow> bool" where
  "owners_ok s =
     ((\<forall>t b. stagingBuffer s t = Some b \<longrightarrow>
          b < length (heap s) \<and> \<not> shouldDeallocate (heap s ! b))
      \<and> (\<forall>t t' b. stagingBuffer s t = Some b \<and> stagingBuffer s t' = Some b \<longrightarrow> t = t'))"

definition unowned :: "bufref \<Rightarrow> process \<Rightarrow> bool" where
  "unowned b s = (b < length (heap s) \<and> (\<forall>t. stagingBuffer s t \<noteq> Some b))"

text \<open>
  One thread after the other creating its buffer and ending, without interleaving: the
  schedule of the threads \<open>0, \<dots>, n - 1\<close>, and the state it leads to. Every buffer is
  placed at the same address, as if each had been freed before the next thread started.
\<close>

definition allocate :: "tid \<Rightarrow> action list" where
  "allocate t = [Lock t, Load t, Store t, Unlock t, New t 4096, Relock t, Push t, Release t]"

fun schedule :: "nat \<Rightarrow> action list" where
  "schedule 0 = []"
| "schedule (Suc n) = schedule n @ allocate n @ [Exit n]"

definition sequential :: "u64 \<Rightarrow> nat \<Rightarrow> process" where
  "sequential C n =
     \<lparr> nextBufferId = of_nat (Suc n), bufferMutex = None,
       threadBuffers = map Some [0..<n],
       stagingBuffer = (\<lambda>_. None),
       pc = (\<lambda>t. if t < n then Exited else Idle),
       heap = map (\<lambda>i. (StagingBuffer_ctor C 4096 (of_nat (Suc i)))\<lparr> shouldDeallocate := True \<rparr>)
                [0..<n] \<rparr>"

section \<open>Reserve and commit\<close>

text \<open>
  C2: \<open>reserveProducerSpace\<close> returns \<open>producerPos\<close> on the in-line path, without
  calling \<open>reserveSpaceInternal\<close>, exactly when \<open>nbytes < minFreeSpace\<close>; in every
  other case, \<open>nbytes = minFreeSpace\<close> included, its result is the one of
  \<open>reserveSpaceInternal\<close>.
\<close>

theorem reserveProducerSpace_fast_path_iff:
  "(reserveProducerSpace rsi sb nbytes = FastPath (producerPos sb)) = (nbytes < minFreeSpace sb)
   \<and> ((\<exists>r. reserveProducerSpace rsi sb nbytes = SlowPath r) = (\<not> nbytes < minFreeSpace sb))
   \<and> reserveProducerSpace rsi sb (minFreeSpace sb) = SlowPath (rsi sb (minFreeSpace sb) True)"
  by (simp add: reserveProducerSpace_def)

text \<open>
  C3: when both asserted conditions hold, \<open>finishReservation\<close> first issues the
  store fence, then stores \<open>minFreeSpace - nbytes\<close> and \<open>producerPos + nbytes\<close>;
  \<open>minFreeSpace\<close> goes down by exactly \<open>nbytes\<close> (the subtraction does not wrap) and
  every other field keeps its value.
\<close>

theorem finishReservation_commit:
  assumes "nbytes < minFreeSpace sb"
    and "producerPos sb + unat nbytes < storage sb + unat C"
  shows "\<exists>sb'. finishReservation C nbytes sb =
            Inr ([Sfence, Store_minFreeSpace (minFreeSpace sb'),
                  Store_producerPos (producerPos sb')], sb')
          \<and> producerPos sb' = producerPos sb + unat nbytes
          \<and> minFreeSpace sb' = minFreeSpace sb - nbytes
          \<and> unat (minFreeSpace sb') + unat nbytes = unat (minFreeSpace sb)
          \<and> consumerPos sb' = consumerPos sb
          \<and> endOfRecordedSpace sb' = endOfRecordedSpace sb
          \<and> shouldDeallocate sb' = shouldDeallocate sb
          \<and> id' sb' = id' sb
          \<and> cyclesProducerBlocked sb' = cyclesProducerBlocked sb
          \<and> storage sb' = storage sb"
proof -
  from assms(1) have "nbytes \<le> minFreeSpace sb" by simp
  then have "unat (minFreeSpace sb - nbytes) = unat (minFreeSpace sb) - unat nbytes"
    by (rule unat_sub)
  moreover from assms(1) have "unat nbytes < unat (minFreeSpace sb)"
    by (simp add: word_less_nat_alt)
  ultimately have "unat (minFreeSpace sb - nbytes) + unat nbytes = unat (minFreeSpace sb)"
    by simp
  with assms show ?thesis
    by (simp add: finishReservation_def)
qed

theorem finishReservation_commit_witness:
  "(64 :: u64) < minFreeSpace (StagingBuffer_ctor 1048576 4096 1)
   \<and> producerPos (StagingBuffer_ctor 1048576 4096 1) + unat (64 :: u64)
       < storage (StagingBuffer_ctor 1048576 4096 1) + unat (1048576 :: u64)
   \<and> (\<exists>sb'. finishReservation 1048576 64 (StagingBuffer_ctor 1048576 4096 1) =
            Inr ([Sfence, Store_minFreeSpace 1048512, Store_producerPos 4160], sb')
          \<and> producerPos sb' = 4160 \<and> minFreeSpace sb' = 1048512
          \<and> consumerPos sb' = 4096 \<and> \<not> shouldDeallocate sb' \<and> id' sb' = 1)"
proof -
  have h1: "(64 :: u64) < minFreeSpace (StagingBuffer_ctor 1048576 4096 1)"
    by (simp add: StagingBuffer_ctor_def)
  have h2: "producerPos (StagingBuffer_ctor 1048576 4096 1) + unat (64 :: u64)
       < storage (StagingBuffer_ctor 1048576 4096 1) + unat (1048576 :: u64)"
    by (simp add: StagingBuffer_ctor_def)
  from finishReservation_commit [OF h1 h2] obtain sb' where
    "finishReservation 1048576 64 (StagingBuffer_ctor 1048576 4096 1) =
       Inr ([Sfence, Store_minFreeSpace (minFreeSpace sb'),
             Store_producerPos (producerPos sb')], sb')"
    and "producerPos sb' = producerPos (StagingBuffer_ctor 1048576 4096 1) + unat (64 :: u64)"
    and "minFreeSpace sb' = minFreeSpace (StagingBuffer_ctor 1048576 4096 1) - 64"
    and "consumerPos sb' = consumerPos (StagingBuffer_ctor 1048576 4096 1)"
    and "shouldDeallocate sb' = shouldDeallocate (StagingBuffer_ctor 1048576 4096 1)"
    and "id' sb' = id' (StagingBuffer_ctor 1048576 4096 1)"
    by blast
  then have "finishReservation 1048576 64 (StagingBuffer_ctor 1048576 4096 1) =
            Inr ([Sfence, Store_minFreeSpace 1048512, Store_producerPos 4160], sb')
          \<and> producerPos sb' = 4160 \<and> minFreeSpace sb' = 1048512
          \<and> consumerPos sb' = 4096 \<and> \<not> shouldDeallocate sb' \<and> id' sb' = 1"
    by (simp add: StagingBuffer_ctor_def)
  with h1 h2 show ?thesis by blast
qed

text \<open>
  C4: \<open>checkCanDelete\<close> is true exactly when \<open>shouldDeallocate\<close> is set and the
  consumer has caught up with the producer.
\<close>

theorem checkCanDelete_iff:
  "checkCanDelete sb = (shouldDeallocate sb \<and> consumerPos sb = producerPos sb)"
  by (simp add: checkCanDelete_def)

text \<open>
  C9: a buffer as the constructor leaves it is empty and cannot be deleted: both
  positions are at the start of \<open>storage\<close>, \<open>minFreeSpace\<close> is the whole capacity,
  \<open>endOfRecordedSpace\<close> is the end of \<open>storage\<close>, \<open>shouldDeallocate\<close> is false and
  \<open>checkCanDelete\<close> answers false.
\<close>

theorem StagingBuffer_ctor_fresh:
  "producerPos (StagingBuffer_ctor C base bufferId) = storage (StagingBuffer_ctor C base bufferId)
   \<and> consumerPos (StagingBuffer_ctor C base bufferId) = storage (StagingBuffer_ctor C base bufferId)
   \<and> storage (StagingBuffer_ctor C base bufferId) = base
   \<and> minFreeSpace (StagingBuffer_ctor C base bufferId) = C
   \<and> endOfRecordedSpace (StagingBuffer_ctor C base bufferId)
       = storage (StagingBuffer_ctor C base bufferId) + unat C
   \<and> shouldDeallocate (StagingBuffer_ctor C base bufferId) = False
   \<and> id' (StagingBuffer_ctor C base bufferId) = bufferId
   \<and> checkCanDelete (StagingBuffer_ctor C base bufferId) = False"
  by (simp add: StagingBuffer_ctor_def checkCanDelete_def)

text \<open>
  C10: if \<open>nbytes < minFreeSpace\<close> and \<open>producerPos + nbytes\<close> is below the end of
  \<open>storage\<close>, neither assertion of \<open>finishReservation\<close> fails, and a \<open>producerPos\<close>
  that pointed into \<open>storage\<close> before the call still does so, strictly below its end,
  after it. Committing exactly \<open>minFreeSpace\<close> bytes fails the first assertion.
\<close>

theorem finishReservation_assertions:
  "(nbytes < minFreeSpace sb
      \<and> producerPos sb + unat nbytes < storage sb + unat C
      \<and> storage sb \<le> producerPos sb
    \<longrightarrow> (\<exists>tr sb'. finishReservation C nbytes sb = Inr (tr, sb')
          \<and> storage sb' \<le> producerPos sb'
          \<and> producerPos sb' < storage sb' + unat C))
   \<and> finishReservation C (minFreeSpace sb) sb = Inl Assert_nbytes_lt_minFreeSpace"
  by (simp add: finishReservation_def)

theorem finishReservation_assertions_witness:
  "(500 :: u64) < minFreeSpace (StagingBuffer_ctor 4096 8192 7)
   \<and> producerPos (StagingBuffer_ctor 4096 8192 7) + unat (500 :: u64)
       < storage (StagingBuffer_ctor 4096 8192 7) + unat (4096 :: u64)
   \<and> storage (StagingBuffer_ctor 4096 8192 7) \<le> producerPos (StagingBuffer_ctor 4096 8192 7)
   \<and> (\<exists>tr sb'. finishReservation 4096 500 (StagingBuffer_ctor 4096 8192 7) = Inr (tr, sb')
          \<and> storage sb' \<le> producerPos sb'
          \<and> producerPos sb' < storage sb' + unat (4096 :: u64))
   \<and> finishReservation 4096 (minFreeSpace (StagingBuffer_ctor 4096 8192 7))
         (StagingBuffer_ctor 4096 8192 7)
       = Inl Assert_nbytes_lt_minFreeSpace"
proof -
  have "(500 :: u64) < minFreeSpace (StagingBuffer_ctor 4096 8192 7)"
    and "producerPos (StagingBuffer_ctor 4096 8192 7) + unat (500 :: u64)
       < storage (StagingBuffer_ctor 4096 8192 7) + unat (4096 :: u64)"
    and "storage (StagingBuffer_ctor 4096 8192 7) \<le> producerPos (StagingBuffer_ctor 4096 8192 7)"
    by (simp_all add: StagingBuffer_ctor_def)
  with finishReservation_assertions [of 500 "StagingBuffer_ctor 4096 8192 7" 4096]
  show ?thesis by blast
qed

section \<open>Exit status and message count of the decoder\<close>

lemma stoi_minus_3: "stoi ''-3'' = Inr (- 3)"
  by (simp add: stoi_def c_str_def isspace_def strip_sign_def isdigit_def)

lemma stoi_zero: "stoi ''0'' = Inr 0"
  by (simp add: stoi_def c_str_def isspace_def strip_sign_def isdigit_def)

text \<open>With fewer than two arguments the status is 1.\<close>

lemma main_exit_missing_arguments:
  "length argv < 2 \<Longrightarrow> fst (main decoder_open du argv) = 1"
  by (simp add: main_def)

text \<open>
  A count that \<open>std::stoi\<close> refuses, or that is negative, ends the program with
  status \<open>-1\<close>.
\<close>

lemma main_exit_malformed_count:
  "2 < length argv \<Longrightarrow> stoi (argv ! 2) = Inl e \<or> (\<exists>n<0. stoi (argv ! 2) = Inr n)
     \<Longrightarrow> fst (main decoder_open du argv) = - 1"
  by (cases e) (auto simp: main_def)

text \<open>
  With a log file and no count, or a count that is not negative, the status is 0,
  whatever \<open>open\<close> answers.
\<close>

lemma main_exit_otherwise:
  "2 \<le> length argv \<Longrightarrow> length argv = 2 \<or> (\<exists>n\<ge>0. stoi (argv ! 2) = Inr n)
     \<Longrightarrow> fst (main decoder_open du argv) = 0"
  by (auto simp: main_def Let_def split: option.splits)

lemma main_unopenable:
  "2 \<le> length argv \<Longrightarrow> length argv = 2 \<or> (\<exists>n\<ge>0. stoi (argv ! 2) = Inr n)
     \<Longrightarrow> decoder_open (argv ! 1) = None
     \<Longrightarrow> main decoder_open du argv = (0, [''Unable to open file '' @ argv ! 1 @ crlf])"
  by (auto simp: main_def Let_def)

text \<open>
  C1: the statuses 0, 1 and \<open>-1\<close> are as the three lemmas above say, except for a log
  file that cannot be opened: there \<open>main\<close> prints its message and returns 0.
\<close>

theorem main_unopenable_returns_0:
  "main (\<lambda>_. None) du [''decoder'', ''missing.log'']
     = (0, [''Unable to open file missing.log'' @ crlf])"
  by (simp add: main_def)

text \<open>
  C5: a negative count is refused with status \<open>-1\<close> and nothing is decoded; with no
  count, or a count of 0, \<open>main\<close> hands \<open>-1\<close> to \<open>decompressUnordered\<close>, which at a
  negative \<open>maxMessages\<close> renders every record of the file.
\<close>

theorem main_count_unlimited:
  "(2 < length argv \<and> stoi (argv ! 2) = Inr n \<and> n < 0 \<longrightarrow>
       main decoder_open du argv
         = (- 1, [''# of messages to print must be positive: '' @ argv ! 2 @ crlf]))
   \<and> (2 \<le> length argv \<and> (length argv = 2 \<or> stoi (argv ! 2) = Inr 0)
        \<and> decoder_open (argv ! 1) = Some d \<longrightarrow>
       main decoder_open du argv = (0, du d (- 1)))
   \<and> decompressUnordered render records (- 1) = map render records"
  by (auto simp: main_def decompressUnordered_def)

theorem main_count_unlimited_witness:
  "main (\<lambda>_. Some [''r1'', ''r2'', ''r3'']) (decompressUnordered id)
       [''decoder'', ''x.log'', ''-3'']
     = (- 1, [''# of messages to print must be positive: -3'' @ crlf])
   \<and> main (\<lambda>_. Some [''r1'', ''r2'', ''r3'']) (decompressUnordered id)
       [''decoder'', ''x.log'', ''0'']
     = (0, [''r1'', ''r2'', ''r3''])
   \<and> main (\<lambda>_. Some [''r1'', ''r2'', ''r3'']) (decompressUnordered id)
       [''decoder'', ''x.log'']
     = (0, [''r1'', ''r2'', ''r3''])"
  using
    main_count_unlimited [where argv = "[''decoder'', ''x.log'', ''-3'']" and n = "- 3"
      and decoder_open = "\<lambda>_. Some [''r1'', ''r2'', ''r3'']"
      and du = "decompressUnordered id" and d = "[''r1'', ''r2'', ''r3'']"
      and render = id and records = "[''r1'', ''r2'', ''r3'']"]
    main_count_unlimited [where argv = "[''decoder'', ''x.log'', ''0'']" and n = "- 3"
      and decoder_open = "\<lambda>_. Some [''r1'', ''r2'', ''r3'']"
      and du = "decompressUnordered id" and d = "[''r1'', ''r2'', ''r3'']"
      and render = id and records = "[''r1'', ''r2'', ''r3'']"]
    main_count_unlimited [where argv = "[''decoder'', ''x.log'']" and n = "- 3"
      and decoder_open = "\<lambda>_. Some [''r1'', ''r2'', ''r3'']"
      and du = "decompressUnordered id" and d = "[''r1'', ''r2'', ''r3'']"
      and render = id and records = "[''r1'', ''r2'', ''r3'']"]
  by (simp add: stoi_minus_3 stoi_zero)

section \<open>Rows of the metadata table\<close>

lemma strstr_None: "(strstr h n = None) = (\<not> sublist n h)"
  by (induction h) (auto simp: sublist_Cons_right)

lemma strstr_Some: "(\<exists>k. strstr h n = Some k) = sublist n h"
  using strstr_None [of h n] by auto

lemma collect_matching_filter:
  "collect_matching n tbl s i acc =
     acc @ filter (\<lambda>j. sublist (c_str s) (c_str (fmtString (tbl j)))) [i..<n]"
proof (induction n tbl s i acc rule: collect_matching.induct)
  case (1 n tbl s i acc)
  show ?case
  proof (cases "i < n")
    case True
    then have "[i..<n] = i # [Suc i..<n]" by (simp add: upt_conv_Cons)
    with True "1.IH" show ?thesis
      by (subst collect_matching.simps) (simp add: strstr_None strstr_Some)
  next
    case False
    then show ?thesis by (subst collect_matching.simps) simp
  qed
qed

lemma print_rows_map: "print_rows tbl ids = map (\<lambda>i. metadata_row i (tbl i)) ids"
  by (induction ids) simp_all

text \<open>
  What the function prints: after the header row, one row for each id below
  \<open>numLogIds\<close>, in ascending order, whose format string contains, as a substring,
  \<open>searchString.c_str()\<close>, the characters of \<open>searchString\<close> before its first NUL;
  and no other row.
\<close>

theorem printLogMetadataContainingSubstring_rows:
  "printLogMetadataContainingSubstring numLogIds tbl searchString =
     header_row # map (\<lambda>i. metadata_row i (tbl i))
       (filter (\<lambda>i. sublist (c_str searchString) (c_str (fmtString (tbl i))))
          [0..<numLogIds])"
  by (simp add: printLogMetadataContainingSubstring_def collect_matching_filter print_rows_map)

text \<open>
  Where neither the search string nor a format string of the table has a NUL inside,
  the rows are those of the format strings that contain the search string itself.
\<close>

lemma c_str_no_nul: "CHR 0x00 \<notin> set s \<Longrightarrow> c_str s = s"
  by (auto simp: c_str_def takeWhile_eq_all_conv)

lemma printLogMetadataContainingSubstring_no_nul:
  assumes "CHR 0x00 \<notin> set searchString"
    and "\<And>i. i < numLogIds \<Longrightarrow> CHR 0x00 \<notin> set (fmtString (tbl i))"
  shows "printLogMetadataContainingSubstring numLogIds tbl searchString =
     header_row # map (\<lambda>i. metadata_row i (tbl i))
       (filter (\<lambda>i. sublist searchString (fmtString (tbl i))) [0..<numLogIds])"
proof -
  have "filter (\<lambda>i. sublist (c_str searchString) (c_str (fmtString (tbl i)))) [0..<numLogIds]
      = filter (\<lambda>i. sublist searchString (fmtString (tbl i))) [0..<numLogIds]"
    using assms by (intro filter_cong) (simp_all add: c_str_no_nul)
  then show ?thesis
    by (simp add: printLogMetadataContainingSubstring_def collect_matching_filter print_rows_map)
qed


section \<open>Buffer ids\<close>

subsection \<open>The mutex discipline is invariant\<close>

lemma mutex_ok_init: "mutex_ok init"
  by (simp add: mutex_ok_def init_def)

lemma mutex_ok_holder:
  assumes "mutex_ok s" and "bufferMutex s = None \<or> bufferMutex s = Some t"
    and "pc s' = (pc s)(t := p)"
    and "holds_bufferMutex p = (bufferMutex s' = Some t)"
    and "bufferMutex s' = None \<or> bufferMutex s' = Some t"
    and "\<And>v. p = Loaded v \<Longrightarrow> v = nextBufferId s'"
  shows "mutex_ok s'"
proof -
  have other: "\<not> holds_bufferMutex (pc s u)" if "u \<noteq> t" for u
    using assms(1,2) that by (auto simp: mutex_ok_def)
  have "holds_bufferMutex (pc s' u) = (bufferMutex s' = Some u)" for u
    using assms(3,4,5) other [of u] by (cases "u = t") auto
  moreover have "v = nextBufferId s'" if "pc s' u = Loaded v" for u v
  proof (cases "u = t")
    case True
    with that assms(3,6) show ?thesis by simp
  next
    case False
    with other [of u] that assms(3) show ?thesis by simp
  qed
  ultimately show ?thesis by (simp add: mutex_ok_def)
qed

lemma mutex_ok_other:
  assumes "mutex_ok s" and "pc s' = (pc s)(t := p)"
    and "\<not> holds_bufferMutex (pc s t)" and "\<not> holds_bufferMutex p"
    and "bufferMutex s' = bufferMutex s" and "nextBufferId s' = nextBufferId s"
  shows "mutex_ok s'"
  using assms by (auto simp: mutex_ok_def)

lemma mutex_ok_same:
  assumes "mutex_ok s" and "pc s' = pc s"
    and "bufferMutex s' = bufferMutex s" and "nextBufferId s' = nextBufferId s"
  shows "mutex_ok s'"
  using assms by (simp add: mutex_ok_def)

lemma mutex_ok_holds:
  "mutex_ok s \<Longrightarrow> holds_bufferMutex (pc s t) \<Longrightarrow> bufferMutex s = Some t"
  by (simp add: mutex_ok_def)

lemma mutex_ok_step:
  assumes "mutex_ok s" and "step C a s = Some s'"
  shows "mutex_ok s'"
proof (cases a)
  case (Lock t)
  with assms(2) show ?thesis
    by (intro mutex_ok_holder [OF assms(1), of t s' HoldsGuard]) (auto split: if_splits)
next
  case (Load t)
  with assms(2) have "pc s t = HoldsGuard" by (auto split: if_splits)
  with assms(1) have "bufferMutex s = Some t" by (simp add: mutex_ok_holds)
  with Load assms(2) show ?thesis
    by (intro mutex_ok_holder [OF assms(1), of t s' "Loaded (nextBufferId s)"])
       (auto split: if_splits)
next
  case (Store t)
  with assms(2) obtain v where "pc s t = Loaded v" by (auto split: point.splits)
  with assms(1) have "bufferMutex s = Some t" by (simp add: mutex_ok_holds)
  with Store assms(2) \<open>pc s t = Loaded v\<close> show ?thesis
    by (intro mutex_ok_holder [OF assms(1), of t s' "Incremented v"]) auto
next
  case (Unlock t)
  with assms(2) obtain v where "pc s t = Incremented v" by (auto split: point.splits)
  with assms(1) have "bufferMutex s = Some t" by (simp add: mutex_ok_holds)
  with Unlock assms(2) \<open>pc s t = Incremented v\<close> show ?thesis
    by (intro mutex_ok_holder [OF assms(1), of t s' "Unlocked v"]) auto
next
  case (New t base)
  with assms(2) obtain v where "pc s t = Unlocked v" by (auto split: point.splits)
  with New assms(2) show ?thesis
    by (intro mutex_ok_other [OF assms(1), of s' t Allocated]) auto
next
  case (Relock t)
  with assms(2) show ?thesis
    by (intro mutex_ok_holder [OF assms(1), of t s' Relocked]) (auto split: if_splits)
next
  case (Push t)
  with assms(2) have "pc s t = Relocked" by (auto split: if_splits)
  with assms(1) have "bufferMutex s = Some t" by (simp add: mutex_ok_holds)
  with Push assms(2) show ?thesis
    by (intro mutex_ok_holder [OF assms(1), of t s' Pushed]) (auto split: if_splits)
next
  case (Release t)
  with assms(2) have "pc s t = Pushed" by (auto split: if_splits)
  with assms(1) have "bufferMutex s = Some t" by (simp add: mutex_ok_holds)
  with Release assms(2) show ?thesis
    by (intro mutex_ok_holder [OF assms(1), of t s' Idle]) (auto split: if_splits)
next
  case (Finish t n)
  with assms(2) show ?thesis
    by (intro mutex_ok_same [OF assms(1)])
       (auto split: if_splits option.splits sum.splits prod.splits)
next
  case (Consume b n)
  with assms(2) show ?thesis
    by (intro mutex_ok_same [OF assms(1)]) (auto split: if_splits)
next
  case (Exit t)
  with assms(2) show ?thesis
    by (intro mutex_ok_other [OF assms(1), of s' t Exited]) (auto split: if_splits)
qed

subsection \<open>Ids in flight when one thread moves\<close>

lemma ids_in_flight_same:
  assumes "bufferId_of p = bufferId_of (f t)"
  shows "ids_in_flight (f(t := p)) = ids_in_flight f"
proof -
  have "bufferId_of ((f(t := p)) u) = bufferId_of (f u)" for u
    using assms by simp
  then show ?thesis by (simp add: ids_in_flight_def)
qed

lemma ids_in_flight_add:
  assumes "bufferId_of (f t) = None" and "bufferId_of p = Some v"
  shows "ids_in_flight (f(t := p)) = insert v (ids_in_flight f)"
proof (rule set_eqI)
  fix w
  show "w \<in> ids_in_flight (f(t := p)) \<longleftrightarrow> w \<in> insert v (ids_in_flight f)"
  proof
    assume "w \<in> ids_in_flight (f(t := p))"
    then obtain u where "bufferId_of ((f(t := p)) u) = Some w" by (auto simp: ids_in_flight_def)
    with assms(2) show "w \<in> insert v (ids_in_flight f)"
      by (cases "u = t") (auto simp: ids_in_flight_def)
  next
    assume "w \<in> insert v (ids_in_flight f)"
    then consider "w = v" | u where "bufferId_of (f u) = Some w"
      by (auto simp: ids_in_flight_def)
    then show "w \<in> ids_in_flight (f(t := p))"
    proof cases
      case 1
      with assms(2) have "bufferId_of ((f(t := p)) t) = Some w" by simp
      then show ?thesis unfolding ids_in_flight_def by blast
    next
      case 2
      with assms(1) have "u \<noteq> t" by auto
      with 2 have "bufferId_of ((f(t := p)) u) = Some w" by simp
      then show ?thesis unfolding ids_in_flight_def by blast
    qed
  qed
qed

lemma ids_in_flight_remove:
  assumes "unique_in_flight f" and "bufferId_of (f t) = Some v" and "bufferId_of p = None"
  shows "ids_in_flight (f(t := p)) = ids_in_flight f - {v}"
proof (rule set_eqI)
  fix w
  show "w \<in> ids_in_flight (f(t := p)) \<longleftrightarrow> w \<in> ids_in_flight f - {v}"
  proof
    assume "w \<in> ids_in_flight (f(t := p))"
    then obtain u where u: "bufferId_of ((f(t := p)) u) = Some w" by (auto simp: ids_in_flight_def)
    with assms(3) have "u \<noteq> t" by auto
    with u have fu: "bufferId_of (f u) = Some w" by simp
    with assms(1,2) \<open>u \<noteq> t\<close> have "w \<noteq> v" by (auto simp: unique_in_flight_def)
    with fu show "w \<in> ids_in_flight f - {v}" by (auto simp: ids_in_flight_def)
  next
    assume "w \<in> ids_in_flight f - {v}"
    then obtain u where u: "bufferId_of (f u) = Some w" and "w \<noteq> v"
      by (auto simp: ids_in_flight_def)
    with assms(2) have "u \<noteq> t" by auto
    with u have "bufferId_of ((f(t := p)) u) = Some w" by simp
    then show "w \<in> ids_in_flight (f(t := p))" unfolding ids_in_flight_def by blast
  qed
qed

lemma unique_in_flight_same:
  "unique_in_flight f \<Longrightarrow> bufferId_of p = bufferId_of (f t) \<Longrightarrow> unique_in_flight (f(t := p))"
  unfolding unique_in_flight_def
  by (metis fun_upd_apply)

lemma unique_in_flight_remove:
  "unique_in_flight f \<Longrightarrow> bufferId_of p = None \<Longrightarrow> unique_in_flight (f(t := p))"
  unfolding unique_in_flight_def
  by (auto split: if_splits)

lemma unique_in_flight_add:
  "unique_in_flight f \<Longrightarrow> bufferId_of p = Some v \<Longrightarrow> v \<notin> ids_in_flight f
     \<Longrightarrow> unique_in_flight (f(t := p))"
  unfolding unique_in_flight_def ids_in_flight_def
  by (auto split: if_splits)


subsection \<open>The ids stay distinct and consecutive\<close>

lemma unat_of_nat_u32: "n < 2 ^ 32 \<Longrightarrow> unat (of_nat n :: u32) = n"
  by (simp add: unat_of_nat)

lemma of_nat_u32_fresh:
  assumes "Suc k < 2 ^ 32"
  shows "(of_nat (Suc k) :: u32) \<notin> of_nat ` {1..k}"
proof
  assume "(of_nat (Suc k) :: u32) \<in> of_nat ` {1..k}"
  then obtain j where j: "j \<in> {1..k}" and eq: "(of_nat (Suc k) :: u32) = of_nat j" by blast
  from j have "j < Suc k" by simp
  from this assms have "j < 2 ^ 32" by (rule less_trans)
  then have "unat (of_nat j :: u32) = j" by (rule unat_of_nat_u32)
  with eq have "unat (of_nat (Suc k) :: u32) = j" by (simp only:)
  with unat_of_nat_u32 [OF assms] have "Suc k = j" by (simp only:)
  with \<open>j < Suc k\<close> show False by linarith
qed

lemma ids_ok_same:
  assumes "ids_ok k s" and "nextBufferId s' = nextBufferId s"
    and "map id' (heap s') = map id' (heap s)"
    and "ids_in_flight (pc s') = ids_in_flight (pc s)" and "unique_in_flight (pc s')"
  shows "ids_ok k s'"
proof -
  from assms(3) have "set (map id' (heap s')) = set (map id' (heap s))" by simp
  then have "id' ` set (heap s') = id' ` set (heap s)" by simp
  with assms show ?thesis by (simp add: ids_ok_def)
qed

lemma ids_ok_store:
  assumes "ids_ok k s" and "Suc k < 2 ^ 32"
    and "nextBufferId s' = nextBufferId s + 1" and "heap s' = heap s"
    and "ids_in_flight (pc s') = insert (nextBufferId s) (ids_in_flight (pc s))"
    and "unique_in_flight (pc s')"
  shows "ids_ok (Suc k) s'"
proof -
  from assms(1) have n: "nextBufferId s = of_nat (Suc k)" by (simp add: ids_ok_def)
  from assms(1) have u: "id' ` set (heap s) \<union> ids_in_flight (pc s) = of_nat ` {1..k}"
    by (simp add: ids_ok_def)
  from of_nat_u32_fresh [OF assms(2)] u have fresh: "nextBufferId s \<notin> id' ` set (heap s)"
    unfolding n by blast
  have "{1..Suc k} = insert (Suc k) {1..k}" by auto
  then have "of_nat ` {1..Suc k} = insert (of_nat (Suc k) :: u32) (of_nat ` {1..k})" by simp
  with u n have "id' ` set (heap s) \<union> insert (nextBufferId s) (ids_in_flight (pc s))
      = of_nat ` {1..Suc k}" by auto
  moreover from assms(1) fresh
  have "id' ` set (heap s) \<inter> insert (nextBufferId s) (ids_in_flight (pc s)) = {}"
    by (auto simp: ids_ok_def)
  moreover from n have "nextBufferId s + 1 = of_nat (Suc (Suc k))" by simp
  ultimately show ?thesis using assms(1,3,4,5,6) by (simp add: ids_ok_def)
qed

lemma ids_ok_new:
  assumes "ids_ok k s" and "v \<in> ids_in_flight (pc s)"
    and "nextBufferId s' = nextBufferId s"
    and "map id' (heap s') = map id' (heap s) @ [v]"
    and "ids_in_flight (pc s') = ids_in_flight (pc s) - {v}"
    and "unique_in_flight (pc s')"
  shows "ids_ok k s'"
proof -
  from assms(4) have "set (map id' (heap s')) = set (map id' (heap s) @ [v])" by simp
  then have h: "id' ` set (heap s') = insert v (id' ` set (heap s))" by simp
  from assms(1,2) have fresh: "v \<notin> id' ` set (heap s)" by (auto simp: ids_ok_def)
  from assms(1) fresh have "distinct (map id' (heap s) @ [v])" by (simp add: ids_ok_def)
  moreover from assms(1,2) have "insert v (id' ` set (heap s)) \<union> (ids_in_flight (pc s) - {v})
      = of_nat ` {1..k}" by (auto simp: ids_ok_def)
  moreover from assms(1) have "insert v (id' ` set (heap s)) \<inter> (ids_in_flight (pc s) - {v}) = {}"
    by (auto simp: ids_ok_def)
  ultimately show ?thesis using assms h by (simp add: ids_ok_def)
qed

lemma map_id_list_update:
  assumes "id' sb = id' (h ! b)"
  shows "map id' (h[b := sb]) = map id' h"
proof (cases "b < length h")
  case True
  with assms show ?thesis by (simp add: map_update list_update_same_conv)
next
  case False
  then have "length h \<le> b" by simp
  then have "h[b := sb] = h" by (rule list_update_beyond)
  then show ?thesis by (rule arg_cong)
qed

lemma finishReservation_id:
  "finishReservation C n sb = Inr (ev, sb') \<Longrightarrow> id' sb' = id' sb"
  by (auto simp: finishReservation_def split: if_splits)

lemma dtor_ids:
  "map id' (snd (StagingBufferDestroyer_dtor p h)) = map id' h"
  by (cases p) (simp_all add: StagingBufferDestroyer_dtor_def map_id_list_update)

lemma ids_ok_unique: "ids_ok k s \<Longrightarrow> unique_in_flight (pc s)"
  by (simp add: ids_ok_def)

lemma ids_ok_step_Store:
  assumes "mutex_ok s" and "ids_ok k s" and "step C (Store t) s = Some s'"
    and "Suc k < 2 ^ 32"
  shows "ids_ok (Suc k) s'"
proof -
  note u = ids_ok_unique [OF assms(2)]
  note lim = assms(4)
  from assms(3) obtain v where pc: "pc s t = Loaded v"
    and s': "pc s' = (pc s)(t := Incremented v)" "nextBufferId s' = v + 1" "heap s' = heap s"
    by (auto split: point.splits)
  from assms(1) pc have v: "v = nextBufferId s"
    unfolding mutex_ok_def by blast
  from assms(2) have n: "nextBufferId s = of_nat (Suc k)"
    and un: "id' ` set (heap s) \<union> ids_in_flight (pc s) = of_nat ` {1..k}"
    unfolding ids_ok_def by blast+
  have "(of_nat (Suc k) :: u32) \<notin> id' ` set (heap s) \<union> ids_in_flight (pc s)"
    unfolding un by (rule of_nat_u32_fresh [OF lim])
  then have fresh: "nextBufferId s \<notin> ids_in_flight (pc s)"
    unfolding n by blast
  from pc have "bufferId_of (pc s t) = None" by simp
  then have inf: "ids_in_flight ((pc s)(t := Incremented v)) = insert v (ids_in_flight (pc s))"
    by (rule ids_in_flight_add) simp
  from fresh have "v \<notin> ids_in_flight (pc s)" unfolding v .
  with u have "unique_in_flight ((pc s)(t := Incremented v))"
    by (intro unique_in_flight_add [of _ _ v]) simp_all
  then have "unique_in_flight (pc s')" unfolding s' .
  moreover have "ids_in_flight (pc s') = insert (nextBufferId s) (ids_in_flight (pc s))"
    using inf unfolding s' v .
  moreover have "nextBufferId s' = nextBufferId s + 1"
    unfolding s' v ..
  ultimately show "ids_ok (Suc k) s'"
    using s'(3) by (intro ids_ok_store [OF assms(2) lim])
qed

lemma ids_ok_step:
  assumes "mutex_ok s" and "ids_ok k s" and "step C a s = Some s'"
    and "is_Store a \<Longrightarrow> Suc k < 2 ^ 32"
  shows "ids_ok (if is_Store a then Suc k else k) s'"
proof -
  note u = ids_ok_unique [OF assms(2)]
  have same: "ids_ok k s'"
    if "pc s' = (pc s)(t := p)" and "bufferId_of p = bufferId_of (pc s t)"
      and "nextBufferId s' = nextBufferId s" and "map id' (heap s') = map id' (heap s)"
    for t p
    using that u
    by (intro ids_ok_same [OF assms(2)]) (simp_all add: ids_in_flight_same unique_in_flight_same)
  show ?thesis
  proof (cases a)
    case (Lock t)
    with assms(3) have "ids_ok k s'"
      by (intro same [of t HoldsGuard]) (auto split: if_splits)
    with Lock show ?thesis by simp
  next
    case (Load t)
    with assms(3) have "ids_ok k s'"
      by (intro same [of t "Loaded (nextBufferId s)"]) (auto split: if_splits)
    with Load show ?thesis by simp
  next
    case (Store t)
    with assms(4) have "Suc k < 2 ^ 32" by (simp only: is_Store.simps)
    with assms(1,2) assms(3) [unfolded Store] have "ids_ok (Suc k) s'"
      by (rule ids_ok_step_Store)
    with Store show ?thesis by (simp only: is_Store.simps if_True)
  next
    case (Unlock t)
    with assms(3) obtain v where "pc s t = Incremented v" and "pc s' = (pc s)(t := Unlocked v)"
      and "nextBufferId s' = nextBufferId s" and "heap s' = heap s"
      by (auto split: point.splits)
    then have "ids_ok k s'"
      by (intro same [of t "Unlocked v"]) simp_all
    with Unlock show ?thesis by simp
  next
    case (New t base)
    with assms(3) obtain v where pc: "pc s t = Unlocked v" and s': "pc s' = (pc s)(t := Allocated)"
      "nextBufferId s' = nextBufferId s" "heap s' = heap s @ [StagingBuffer_ctor C base v]"
      by (auto split: point.splits)
    from pc have "bufferId_of (pc s t) = Some v" by simp
    then have mem: "v \<in> ids_in_flight (pc s)" unfolding ids_in_flight_def by blast
    from pc u have "ids_in_flight ((pc s)(t := Allocated)) = ids_in_flight (pc s) - {v}"
      by (intro ids_in_flight_remove) simp_all
    moreover from u have "unique_in_flight ((pc s)(t := Allocated))"
      by (intro unique_in_flight_remove) simp_all
    ultimately have "ids_ok k s'" using s' mem
      by (intro ids_ok_new [OF assms(2), of v]) (simp_all add: StagingBuffer_ctor_def)
    with New show ?thesis by simp
  next
    case (Relock t)
    with assms(3) have "ids_ok k s'"
      by (intro same [of t Relocked]) (auto split: if_splits)
    with Relock show ?thesis by simp
  next
    case (Push t)
    with assms(3) have "ids_ok k s'"
      by (intro same [of t Pushed]) (auto split: if_splits)
    with Push show ?thesis by simp
  next
    case (Release t)
    with assms(3) have "ids_ok k s'"
      by (intro same [of t Idle]) (auto split: if_splits)
    with Release show ?thesis by simp
  next
    case (Finish t n)
    with assms(3) obtain b ev sb where "finishReservation C n (heap s ! b) = Inr (ev, sb)"
      and "s' = s\<lparr>heap := (heap s)[b := sb]\<rparr>"
      by (auto split: if_splits option.splits sum.splits prod.splits)
    then have "ids_ok k s'"
      by (intro same [of t "pc s t"])
         (auto intro!: map_id_list_update dest: finishReservation_id)
    with Finish show ?thesis by simp
  next
    case (Consume b n)
    with assms(3) have "s' = s\<lparr>heap := (heap s)[b := snd (consume n (heap s ! b))]\<rparr>"
      by (auto split: if_splits)
    then have "ids_ok k s'"
      by (intro same [of 0 "pc s 0"]) (auto intro!: map_id_list_update simp: consume_def)
    with Consume show ?thesis by simp
  next
    case (Exit t)
    with assms(3) have "pc s t = Idle" and "pc s' = (pc s)(t := Exited)"
      and "nextBufferId s' = nextBufferId s"
      and "heap s' = snd (StagingBufferDestroyer_dtor (stagingBuffer s t) (heap s))"
      by (auto split: if_splits)
    then have "ids_ok k s'"
      by (intro same [of t Exited]) (simp_all add: dtor_ids)
    with Exit show ?thesis by simp
  qed
qed

lemma ids_assigned_Cons:
  "ids_assigned (a # acts) = (if is_Store a then Suc (ids_assigned acts) else ids_assigned acts)"
  by (simp add: ids_assigned_def)

lemma ids_ok_run:
  assumes "mutex_ok s" and "ids_ok k s" and "run C acts s = Some s'"
    and "k + ids_assigned acts < 2 ^ 32"
  shows "mutex_ok s' \<and> ids_ok (k + ids_assigned acts) s'"
  using assms
proof (induction acts arbitrary: s k)
  case Nil
  then show ?case by (simp add: ids_assigned_def)
next
  case (Cons a acts)
  from Cons.prems(3) obtain s1 where s1: "step C a s = Some s1" and r: "run C acts s1 = Some s'"
    by (auto split: option.splits)
  from Cons.prems(1) s1 have m1: "mutex_ok s1" by (rule mutex_ok_step)
  show ?case
  proof (cases "is_Store a")
    case True
    with Cons.prems(4) have lim: "Suc k + ids_assigned acts < 2 ^ 32"
      by (simp add: ids_assigned_Cons)
    then have "Suc k < 2 ^ 32" by arith
    with Cons.prems(1,2) s1 True have "ids_ok (Suc k) s1"
      using ids_ok_step [of s k C a s1] by simp
    with m1 r lim have "mutex_ok s' \<and> ids_ok (Suc k + ids_assigned acts) s'"
      by (intro Cons.IH)
    with True show ?thesis by (simp add: ids_assigned_Cons)
  next
    case False
    with Cons.prems(4) have lim: "k + ids_assigned acts < 2 ^ 32"
      by (simp add: ids_assigned_Cons)
    from Cons.prems(1,2) s1 False have "ids_ok k s1"
      using ids_ok_step [of s k C a s1] by simp
    with m1 r lim have "mutex_ok s' \<and> ids_ok (k + ids_assigned acts) s'"
      by (intro Cons.IH)
    with False show ?thesis by (simp add: ids_assigned_Cons)
  qed
qed

lemma ids_ok_init: "ids_ok 0 init"
  by (simp add: ids_ok_def init_def ids_in_flight_def unique_in_flight_def)

lemma unat_image_of_nat_u32:
  assumes "k < 2 ^ 32"
  shows "unat ` ((of_nat :: nat \<Rightarrow> u32) ` {1..k}) = {1..k}"
proof -
  have "unat (of_nat j :: u32) = j" if "j \<in> {1..k}" for j
  proof -
    from that have "j \<le> k" by simp
    from this assms have "j < 2 ^ 32" by (rule le_less_trans)
    then show ?thesis by (rule unat_of_nat_u32)
  qed
  then have "(\<lambda>j. unat (of_nat j :: u32)) ` {1..k} = (\<lambda>j. j) ` {1..k}"
    by (intro image_cong) simp_all
  then show ?thesis by (simp only: image_image image_ident)
qed

text \<open>
  In every run in which fewer than \<open>2 ^ 32\<close> ids have been taken from
  \<open>nextBufferId\<close>, the ids of the buffers created are pairwise distinct; together
  with the ids taken and not yet given to a constructor, which differ from them and
  from each other, they are the integers from 1 to the number of ids taken. A thread
  is between a lock and the next unlock exactly when it owns \<open>bufferMutex\<close>, so the
  load and the store of \<open>nextBufferId++\<close> happen under the mutex, and a thread about
  to run \<open>new StagingBuffer\<close> does not own it.
\<close>

theorem buffer_ids_distinct_and_dense:
  assumes "run C acts init = Some s" and "ids_assigned acts < 2 ^ 32"
  shows "distinct (map id' (heap s))
       \<and> unat ` (id' ` set (heap s) \<union> ids_in_flight (pc s)) = {1..ids_assigned acts}
       \<and> id' ` set (heap s) \<inter> ids_in_flight (pc s) = {}
       \<and> unique_in_flight (pc s)
       \<and> (\<forall>t. holds_bufferMutex (pc s t) = (bufferMutex s = Some t))
       \<and> (\<forall>t v. pc s t = Unlocked v \<longrightarrow> bufferMutex s \<noteq> Some t)"
proof -
  from assms(2) have "0 + ids_assigned acts < 2 ^ 32" by (simp only: add_0)
  with mutex_ok_init ids_ok_init assms(1)
  have "mutex_ok s \<and> ids_ok (0 + ids_assigned acts) s" by (rule ids_ok_run)
  then have m: "mutex_ok s" and i: "ids_ok (ids_assigned acts) s" by (simp_all only: add_0)
  from m have coh: "\<forall>t. holds_bufferMutex (pc s t) = (bufferMutex s = Some t)"
    unfolding mutex_ok_def by blast
  have out: "bufferMutex s \<noteq> Some t" if "pc s t = Unlocked v" for t v
  proof
    assume "bufferMutex s = Some t"
    with coh have "holds_bufferMutex (pc s t)" by blast
    with that show False by simp
  qed
  from i have "id' ` set (heap s) \<union> ids_in_flight (pc s) = of_nat ` {1..ids_assigned acts}"
    unfolding ids_ok_def by blast
  then have "unat ` (id' ` set (heap s) \<union> ids_in_flight (pc s)) = {1..ids_assigned acts}"
    using unat_image_of_nat_u32 [OF assms(2)] by (simp only:)
  moreover from i have "distinct (map id' (heap s))"
    and "id' ` set (heap s) \<inter> ids_in_flight (pc s) = {}" and "unique_in_flight (pc s)"
    unfolding ids_ok_def by blast+
  ultimately show ?thesis using coh out by blast
qed

subsection \<open>The counter wraps\<close>

lemma run_append:
  "run C (xs @ ys) s = (case run C xs s of None \<Rightarrow> None | Some s' \<Rightarrow> run C ys s')"
  by (induction xs arbitrary: s) (auto split: option.splits)

lemma run_allocate_exit:
  "run C (allocate n @ [Exit n]) (sequential C n) = Some (sequential C (Suc n))"
  by (auto simp: allocate_def sequential_def fun_eq_iff StagingBufferDestroyer_dtor_def
        list_update_append nth_append)

lemma run_schedule: "run C (schedule n) init = Some (sequential C n)"
proof (induction n)
  case 0
  show ?case by (simp add: sequential_def init_def)
next
  case (Suc n)
  have "run C (schedule (Suc n)) init =
      (case run C (schedule n) init of
         None \<Rightarrow> None
       | Some s' \<Rightarrow> run C (allocate n @ [Exit n]) s')"
    unfolding schedule.simps by (rule run_append)
  also have "\<dots> = run C (allocate n @ [Exit n]) (sequential C n)"
    by (simp only: Suc option.case)
  also have "\<dots> = Some (sequential C (Suc n))"
    by (rule run_allocate_exit)
  finally show ?case .
qed

lemma sequential_not_distinct:
  assumes "2 ^ 32 < n"
  shows "\<not> distinct (map id' (heap (sequential C n)))"
proof
  assume d: "distinct (map id' (heap (sequential C n)))"
  have "map id' (heap (sequential C n)) = map (\<lambda>i. of_nat (Suc i) :: u32) [0..<n]"
    by (simp add: sequential_def StagingBuffer_ctor_def comp_def)
  with d have inj: "inj_on (\<lambda>i. of_nat (Suc i) :: u32) {0..<n}"
    by (simp add: distinct_map)
  have eq: "(of_nat (Suc 0) :: u32) = of_nat (Suc (2 ^ 32))" by simp
  from assms have "0 \<in> {0..<n}" and "2 ^ 32 \<in> {0..<n}" by simp_all
  with inj eq have "(0 :: nat) = 2 ^ 32" by (rule inj_onD)
  then show False by simp
qed

lemma sequential_length: "length (heap (sequential C n)) = n"
  by (simp add: sequential_def)

lemma sequential_id:
  "i < n \<Longrightarrow> id' (heap (sequential C n) ! i) = of_nat (Suc i)"
  by (simp add: sequential_def StagingBuffer_ctor_def del: of_nat_Suc)

text \<open>
  C6: the ids of distinct buffers are to be pairwise distinct for the whole life of the
  process, as the comments on \<open>nextBufferId\<close> and on \<open>id\<close> say. So they are while
  fewer than \<open>2 ^ 32\<close> ids have been taken (the theorem above). \<open>nextBufferId\<close> is a
  \<open>uint32_t\<close>: when \<open>2 ^ 32 + 1\<close> threads, one after the other, have created their
  buffers and ended, the first and the last of the \<open>2 ^ 32 + 1\<close> buffers both carry
  the id 1.
\<close>

theorem buffer_ids_repeat_after_wrap:
  "run 1048576 (schedule (Suc (2 ^ 32))) init = Some (sequential 1048576 (Suc (2 ^ 32)))
   \<and> length (heap (sequential 1048576 (Suc (2 ^ 32)))) = Suc (2 ^ 32)
   \<and> id' (heap (sequential 1048576 (Suc (2 ^ 32))) ! 0) = 1
   \<and> id' (heap (sequential 1048576 (Suc (2 ^ 32))) ! (2 ^ 32)) = 1
   \<and> \<not> distinct (map id' (heap (sequential 1048576 (Suc (2 ^ 32)))))"
proof (intro conjI)
  show "run 1048576 (schedule (Suc (2 ^ 32))) init = Some (sequential 1048576 (Suc (2 ^ 32)))"
    by (rule run_schedule)
  show "length (heap (sequential 1048576 (Suc (2 ^ 32)))) = Suc (2 ^ 32)"
    by (rule sequential_length)
  have lt: "(2 :: nat) ^ 32 < Suc (2 ^ 32)" by simp
  have "(0 :: nat) < Suc (2 ^ 32)" by simp
  then have "id' (heap (sequential 1048576 (Suc (2 ^ 32))) ! 0) = of_nat (Suc 0)"
    by (rule sequential_id)
  then show "id' (heap (sequential 1048576 (Suc (2 ^ 32))) ! 0) = 1" by simp
  from lt have "id' (heap (sequential 1048576 (Suc (2 ^ 32))) ! (2 ^ 32)) = of_nat (Suc (2 ^ 32))"
    by (rule sequential_id)
  then show "id' (heap (sequential 1048576 (Suc (2 ^ 32))) ! (2 ^ 32)) = 1" by simp
  from lt show "\<not> distinct (map id' (heap (sequential 1048576 (Suc (2 ^ 32)))))"
    by (rule sequential_not_distinct)
qed

text \<open>Two threads take their ids in one order and create their buffers in the other.\<close>

theorem buffer_ids_distinct_and_dense_witness:
  "\<exists>s. run 4096 [Lock 0, Load 0, Store 0, Unlock 0, Lock 1, Load 1, Store 1, Unlock 1,
                  New 1 8192, New 0 4096, Relock 1, Push 1, Release 1,
                  Relock 0, Push 0, Release 0] init = Some s
       \<and> map id' (heap s) = [2, 1]
       \<and> threadBuffers s = [Some 0, Some 1]
       \<and> distinct (map id' (heap s))
       \<and> unat ` (id' ` set (heap s) \<union> ids_in_flight (pc s)) = {1..2}"
proof -
  let ?acts = "[Lock 0, Load 0, Store 0, Unlock 0, Lock 1, Load 1, Store 1, Unlock 1,
                New 1 8192, New 0 4096, Relock 1, Push 1, Release 1,
                Relock 0, Push 0, Release 0]"
  obtain s where r: "run 4096 ?acts init = Some s"
    and h: "map id' (heap s) = [2, 1]" and tb: "threadBuffers s = [Some 0, Some 1]"
    by (simp add: init_def StagingBuffer_ctor_def)
  have n: "ids_assigned ?acts = 2" by (simp add: ids_assigned_def)
  then have "ids_assigned ?acts < 2 ^ 32" by simp
  from buffer_ids_distinct_and_dense [OF r this] n
  have "distinct (map id' (heap s))"
    and "unat ` (id' ` set (heap s) \<union> ids_in_flight (pc s)) = {1..2}"
    by simp_all
  with r h tb show ?thesis by (intro exI [of _ s]) simp
qed

text \<open>
  While an id is in flight, the ids of the buffers created so far need not start at 1:
  thread 0 has taken the id 1 and not yet created its buffer, thread 1 has taken the
  id 2 and created its buffer.
\<close>

lemma created_ids_with_one_in_flight:
  "\<exists>s. run 4096 [Lock 0, Load 0, Store 0, Unlock 0, Lock 1, Load 1, Store 1, Unlock 1,
                  New 1 8192] init = Some s
       \<and> map id' (heap s) = [2] \<and> pc s 0 = Unlocked 1"
  by (simp add: init_def StagingBuffer_ctor_def)

section \<open>The sentinel and \<open>shouldDeallocate\<close>\<close>

lemma nth_list_update_if:
  "j < length xs \<Longrightarrow> xs[i := x] ! j = (if i = j then x else xs ! j)"
  by (cases "i = j") simp_all

lemma finishReservation_shouldDeallocate:
  "finishReservation C n sb = Inr (ev, sb') \<Longrightarrow> shouldDeallocate sb' = shouldDeallocate sb"
  by (auto simp: finishReservation_def split: if_splits)

lemma consume_shouldDeallocate:
  "shouldDeallocate (snd (consume n sb)) = shouldDeallocate sb"
  by (simp add: consume_def)

subsection \<open>What one step does to the flag\<close>

lemma step_shouldDeallocate_mono:
  "step C a s = Some s' \<Longrightarrow> b < length (heap s) \<Longrightarrow> shouldDeallocate (heap s ! b)
     \<Longrightarrow> shouldDeallocate (heap s' ! b)"
  by (cases a)
     (auto simp: StagingBufferDestroyer_dtor_def nth_append nth_list_update_if
                 consume_shouldDeallocate
           dest: finishReservation_shouldDeallocate
           split: if_splits point.splits option.splits sum.splits prod.splits)

lemma step_shouldDeallocate_set:
  "step C a s = Some s' \<Longrightarrow> b < length (heap s) \<Longrightarrow> \<not> shouldDeallocate (heap s ! b)
     \<Longrightarrow> shouldDeallocate (heap s' ! b)
     \<Longrightarrow> \<exists>t. a = Exit t \<and> stagingBuffer s t = Some b \<and> stagingBuffer s' t = None"
  by (cases a)
     (auto simp: StagingBufferDestroyer_dtor_def nth_append nth_list_update_if
                 consume_shouldDeallocate
           dest: finishReservation_shouldDeallocate
           split: if_splits point.splits option.splits sum.splits prod.splits)

lemma exit_null_pointer:
  "step C (Exit t) s = Some s' \<Longrightarrow> stagingBuffer s t = None
     \<Longrightarrow> heap s' = heap s \<and> stagingBuffer s' = stagingBuffer s"
  by (auto simp: StagingBufferDestroyer_dtor_def split: if_splits)

subsection \<open>Ownership is invariant\<close>

lemma owners_okD:
  assumes "owners_ok s" and "stagingBuffer s t = Some b"
  shows "b < length (heap s)" and "\<not> shouldDeallocate (heap s ! b)"
    and "stagingBuffer s t' = Some b \<Longrightarrow> t' = t"
  using assms unfolding owners_ok_def by blast+

lemma owners_okI:
  assumes "\<And>t b. stagingBuffer s t = Some b \<Longrightarrow> b < length (heap s)"
    and "\<And>t b. stagingBuffer s t = Some b \<Longrightarrow> \<not> shouldDeallocate (heap s ! b)"
    and "\<And>t t' b. stagingBuffer s t = Some b \<Longrightarrow> stagingBuffer s t' = Some b \<Longrightarrow> t = t'"
  shows "owners_ok s"
  using assms unfolding owners_ok_def by blast

lemma owners_ok_init: "owners_ok init"
  by (simp add: owners_ok_def init_def)

lemma owners_ok_same:
  assumes "owners_ok s" and "stagingBuffer s' = stagingBuffer s" and "heap s' = heap s"
  shows "owners_ok s'"
  using assms by (simp add: owners_ok_def)

lemma owners_ok_new:
  assumes ok: "owners_ok s" and fresh: "\<not> shouldDeallocate sb"
    and p: "stagingBuffer s' = (stagingBuffer s)(t := Some (length (heap s)))"
    and h: "heap s' = heap s @ [sb]"
  shows "owners_ok s'"
proof (rule owners_okI)
  fix u b
  assume "stagingBuffer s' u = Some b"
  with p have "b = length (heap s) \<or> stagingBuffer s u = Some b"
    by (auto split: if_splits)
  with fresh h owners_okD(1,2) [OF ok, of u b]
  show "b < length (heap s')" and "\<not> shouldDeallocate (heap s' ! b)"
    by (auto simp: nth_append)
next
  fix u u' b
  assume "stagingBuffer s' u = Some b" and "stagingBuffer s' u' = Some b"
  with p show "u = u'"
    using owners_okD(1) [OF ok, of u b] owners_okD(1) [OF ok, of u' b]
      owners_okD(3) [OF ok, of u b u']
    by (auto split: if_splits)
qed

lemma owners_ok_update:
  assumes ok: "owners_ok s" and flag: "shouldDeallocate sb = shouldDeallocate (heap s ! b)"
    and p: "stagingBuffer s' = stagingBuffer s" and h: "heap s' = (heap s)[b := sb]"
  shows "owners_ok s'"
proof (rule owners_okI)
  fix u c
  assume "stagingBuffer s' u = Some c"
  with p have c: "stagingBuffer s u = Some c" by simp
  from owners_okD(1) [OF ok c] h show "c < length (heap s')" by simp
  from owners_okD(1,2) [OF ok c] flag h show "\<not> shouldDeallocate (heap s' ! c)"
    by (simp add: nth_list_update_if)
next
  fix u u' c
  assume "stagingBuffer s' u = Some c" and "stagingBuffer s' u' = Some c"
  with p show "u = u'"
    using owners_okD(3) [OF ok, of u' c u] by simp
qed

lemma owners_ok_exit:
  assumes ok: "owners_ok s" and own: "stagingBuffer s t = Some b"
    and p: "stagingBuffer s' = (stagingBuffer s)(t := None)"
    and h: "heap s' = (heap s)[b := (heap s ! b)\<lparr>shouldDeallocate := True\<rparr>]"
  shows "owners_ok s'"
proof (rule owners_okI)
  fix u c
  assume "stagingBuffer s' u = Some c"
  with p have c: "stagingBuffer s u = Some c" and "u \<noteq> t"
    by (auto split: if_splits)
  with owners_okD(3) [OF ok c, of t] own have "c \<noteq> b" by auto
  with owners_okD(1,2) [OF ok c] h
  show "c < length (heap s')" and "\<not> shouldDeallocate (heap s' ! c)"
    by simp_all
next
  fix u u' c
  assume "stagingBuffer s' u = Some c" and "stagingBuffer s' u' = Some c"
  with p show "u = u'"
    using owners_okD(3) [OF ok, of u' c u] by (auto split: if_splits)
qed

lemma owners_ok_step:
  assumes "owners_ok s" and "step C a s = Some s'"
  shows "owners_ok s'"
proof (cases a)
  case (New t base)
  with assms(2) obtain v where "heap s' = heap s @ [StagingBuffer_ctor C base v]"
    and "stagingBuffer s' = (stagingBuffer s)(t := Some (length (heap s)))"
    by (auto split: point.splits)
  then show ?thesis
    by (intro owners_ok_new [OF assms(1), of "StagingBuffer_ctor C base v" s' t])
       (simp_all add: StagingBuffer_ctor_def)
next
  case (Finish t n)
  with assms(2) obtain b ev sb where "finishReservation C n (heap s ! b) = Inr (ev, sb)"
    and "s' = s\<lparr>heap := (heap s)[b := sb]\<rparr>"
    by (auto split: if_splits option.splits sum.splits prod.splits)
  then show ?thesis
    by (intro owners_ok_update [OF assms(1), of sb b s'])
       (simp_all add: finishReservation_shouldDeallocate)
next
  case (Consume b n)
  with assms(2) have "s' = s\<lparr>heap := (heap s)[b := snd (consume n (heap s ! b))]\<rparr>"
    by (auto split: if_splits)
  then show ?thesis
    by (intro owners_ok_update [OF assms(1), of "snd (consume n (heap s ! b))" b s'])
       (simp_all add: consume_shouldDeallocate)
next
  case (Exit t)
  show ?thesis
  proof (cases "stagingBuffer s t")
    case None
    from assms(2) have "step C (Exit t) s = Some s'" unfolding Exit .
    from exit_null_pointer [OF this None]
    have "heap s' = heap s" and "stagingBuffer s' = stagingBuffer s"
      by blast+
    with assms(1) show ?thesis by (intro owners_ok_same [of s s']) simp_all
  next
    case (Some b)
    with Exit assms(2) show ?thesis
      by (intro owners_ok_exit [OF assms(1) Some, of s'])
         (auto simp: StagingBufferDestroyer_dtor_def split: if_splits)
  qed
qed (use assms in \<open>auto simp: owners_ok_def split: if_splits point.splits\<close>)

lemma owners_ok_run:
  "owners_ok s \<Longrightarrow> run C acts s = Some s' \<Longrightarrow> owners_ok s'"
  by (induction acts arbitrary: s) (auto split: option.splits dest: owners_ok_step)

lemma exit_sets_shouldDeallocate:
  "owners_ok s \<Longrightarrow> step C (Exit t) s = Some s' \<Longrightarrow> stagingBuffer s t = Some b
     \<Longrightarrow> \<not> shouldDeallocate (heap s ! b) \<and> shouldDeallocate (heap s' ! b)
         \<and> stagingBuffer s' t = None"
  by (auto simp: owners_ok_def StagingBufferDestroyer_dtor_def split: if_splits)

subsection \<open>At most one write per buffer\<close>

lemma unowned_step:
  "unowned b s \<Longrightarrow> step C a s = Some s' \<Longrightarrow> unowned b s'"
  by (cases a)
     (auto simp: unowned_def StagingBufferDestroyer_dtor_def
           split: if_splits point.splits option.splits sum.splits prod.splits)

lemma unowned_not_written:
  "unowned b s \<Longrightarrow> \<not> writes_shouldDeallocate b a s"
  by (cases a) (auto simp: unowned_def)

lemma count_writes_unowned:
  "unowned b s \<Longrightarrow> count_writes C b acts s = 0"
  by (induction acts arbitrary: s)
     (auto split: option.splits dest: unowned_step simp: unowned_not_written)

lemma written_then_unowned:
  "owners_ok s \<Longrightarrow> step C a s = Some s' \<Longrightarrow> writes_shouldDeallocate b a s
     \<Longrightarrow> unowned b s'"
  by (cases a)
     (auto simp: unowned_def owners_ok_def StagingBufferDestroyer_dtor_def split: if_splits)

lemma count_writes_le_1:
  "owners_ok s \<Longrightarrow> count_writes C b acts s \<le> 1"
proof (induction acts arbitrary: s)
  case Nil
  then show ?case by simp
next
  case (Cons a acts)
  show ?case
  proof (cases "step C a s")
    case None
    then show ?thesis by simp
  next
    case (Some s')
    with Cons.prems have ok: "owners_ok s'" by (blast intro: owners_ok_step)
    show ?thesis
    proof (cases "writes_shouldDeallocate b a s")
      case True
      with Cons.prems Some have "unowned b s'" by (rule written_then_unowned)
      then have "count_writes C b acts s' = 0" by (rule count_writes_unowned)
      with Some True show ?thesis by simp
    next
      case False
      with Some Cons.IH [OF ok] show ?thesis by simp
    qed
  qed
qed

text \<open>
  C7: in every run of the process, the flag of a buffer \<open>b\<close> is written at most once;
  a step never takes it back to false; a step that sets it is the end of the thread
  whose pointer refers to \<open>b\<close>, which finds the flag false and in the same step
  clears that pointer; and the end of a thread whose pointer is null leaves the heap
  and the pointers as they are.
\<close>

theorem shouldDeallocate_set_once:
  assumes "run C acts init = Some s" and "step C a s = Some s'" and "b < length (heap s)"
  shows "count_writes C b (acts @ [a]) init \<le> 1
       \<and> (shouldDeallocate (heap s ! b) \<longrightarrow> shouldDeallocate (heap s' ! b))
       \<and> (\<not> shouldDeallocate (heap s ! b) \<and> shouldDeallocate (heap s' ! b)
            \<longrightarrow> (\<exists>t. a = Exit t \<and> stagingBuffer s t = Some b \<and> stagingBuffer s' t = None))
       \<and> (\<forall>t. a = Exit t \<and> stagingBuffer s t = Some b
            \<longrightarrow> \<not> shouldDeallocate (heap s ! b) \<and> shouldDeallocate (heap s' ! b)
                \<and> stagingBuffer s' t = None)
       \<and> (\<forall>t. a = Exit t \<and> stagingBuffer s t = None
            \<longrightarrow> heap s' = heap s \<and> stagingBuffer s' = stagingBuffer s)"
proof -
  from assms(1) have ok: "owners_ok s"
    by (rule owners_ok_run [OF owners_ok_init])
  have "count_writes C b (acts @ [a]) init \<le> 1"
    by (rule count_writes_le_1 [OF owners_ok_init])
  moreover have "shouldDeallocate (heap s ! b) \<longrightarrow> shouldDeallocate (heap s' ! b)"
    using assms(2,3) by (blast intro: step_shouldDeallocate_mono)
  moreover have "\<not> shouldDeallocate (heap s ! b) \<and> shouldDeallocate (heap s' ! b)
            \<longrightarrow> (\<exists>t. a = Exit t \<and> stagingBuffer s t = Some b \<and> stagingBuffer s' t = None)"
    using assms(2,3) by (blast dest: step_shouldDeallocate_set)
  moreover have "\<forall>t. a = Exit t \<and> stagingBuffer s t = Some b
            \<longrightarrow> \<not> shouldDeallocate (heap s ! b) \<and> shouldDeallocate (heap s' ! b)
                \<and> stagingBuffer s' t = None"
    using assms(2) ok by (blast dest: exit_sets_shouldDeallocate)
  moreover have "\<forall>t. a = Exit t \<and> stagingBuffer s t = None
            \<longrightarrow> heap s' = heap s \<and> stagingBuffer s' = stagingBuffer s"
    using assms(2) by (blast dest: exit_null_pointer)
  ultimately show ?thesis by blast
qed

theorem shouldDeallocate_set_once_witness:
  "\<exists>s s'. run 4096 (allocate 0) init = Some s \<and> step 4096 (Exit 0) s = Some s'
       \<and> 0 < length (heap s) \<and> stagingBuffer s 0 = Some 0
       \<and> \<not> shouldDeallocate (heap s ! 0) \<and> shouldDeallocate (heap s' ! 0)
       \<and> stagingBuffer s' 0 = None
       \<and> count_writes 4096 0 (allocate 0 @ [Exit 0]) init \<le> 1"
proof -
  obtain s where r: "run 4096 (allocate 0) init = Some s"
    and p: "stagingBuffer s 0 = Some 0" and l: "0 < length (heap s)" and i: "pc s 0 = Idle"
    by (simp add: allocate_def init_def)
  from i obtain s' where st: "step 4096 (Exit 0) s = Some s'" by simp
  from shouldDeallocate_set_once [OF r st l] p
  have "count_writes 4096 0 (allocate 0 @ [Exit 0]) init \<le> 1"
    and "\<not> shouldDeallocate (heap s ! 0)" and "shouldDeallocate (heap s' ! 0)"
    and "stagingBuffer s' 0 = None"
    by blast+
  with r st l p show ?thesis by blast
qed

end
